theory Spec2Isabelle
  imports Main "HOL-Library.Sublist" "HOL-Library.Multiset"
begin

section \<open>docbaseview: a shallow embedding of server.go\<close>

text \<open>
  Go strings are byte sequences; they are modelled as \<^typ>\<open>string\<close> (a list of 8-bit
  characters), so a glyph outside ASCII is the list of the bytes of its UTF-8 encoding, as in
  the source file.
\<close>

subsection \<open>The Name Index (startup scan of the image and attachment directories)\<close>

text \<open>What \<open>os.ReadDir\<close> yields for one entry, as far as \<open>main\<close> looks at it.\<close>

record DirEntry =
  Name :: string
  IsDir :: bool

text \<open>
  \<open>strings.LastIndex(s, substr)\<close>: the index of the last instance of \<open>substr\<close> in
  \<open>s\<close>, or \<open>-1\<close> when there is none.
\<close>

definition LastIndex :: "string \<Rightarrow> string \<Rightarrow> int" where
  "LastIndex s substr =
     (case filter (\<lambda>i. take (length substr) (drop i s) = substr) (rev [0..<Suc (length s)]) of
        [] \<Rightarrow> - 1
      | i # _ \<Rightarrow> int i)"

text \<open>
  The key expression of lines 104 and 115,
  \<open>entry.Name()[strings.LastIndex(entry.Name(), "_")+1:]\<close>. The slice start lies between
  \<open>0\<close> and \<open>len(name)\<close>, so the slice never panics.
\<close>

definition linkKey :: "string \<Rightarrow> string" where
  "linkKey name = drop (nat (LastIndex name ''_'' + 1)) name"

text \<open>
  The two scan loops of \<open>main\<close> (lines 102-106 and 113-117) are the same loop over two
  directories: every entry that is not a directory is stored under its key, a later entry
  overwriting an earlier one with the same key.
\<close>

fun scanDir :: "DirEntry list \<Rightarrow> (string \<rightharpoonup> string) \<Rightarrow> (string \<rightharpoonup> string)" where
  "scanDir [] m = m"
| "scanDir (entry # entries) m =
     scanDir entries (if \<not> IsDir entry then m(linkKey (Name entry) \<mapsto> Name entry) else m)"

text \<open>\<open>imgLinkToNameMap\<close> and \<open>fileLinkToNameMap\<close> start empty (\<open>make(map[string]string)\<close>).\<close>

definition buildIndex :: "DirEntry list \<Rightarrow> (string \<rightharpoonup> string)" where
  "buildIndex entries = scanDir entries Map.empty"


subsection \<open>The regular expressions of server.go\<close>

text \<open>
  The four patterns compiled at lines 57-60 are sequences of literal text and of greedy
  repetitions of a character class, at most one of which stands in a capturing group. An
  \<open>item\<close> is one element of such a sequence:
  \<^item> \<open>Lit l\<close>: the literal text \<open>l\<close> (an escaped \<open>\.\<close>, \<open>\[\<close>, \<open>\(\<close>, \<open>\)\<close> is the character);
  \<^item> \<open>Rep n cls\<close>: the class \<open>cls\<close> repeated at least \<open>n\<close> times, greedily
    (\<open>[c]*\<close> is \<open>Rep 0\<close>, \<open>[c]+\<close> is \<open>Rep 1\<close>);
  \<^item> \<open>Cap n cls\<close>: the same repetition inside a capturing group, \<open>([c]+)\<close>.
\<close>

datatype item = Lit string | Rep nat "char \<Rightarrow> bool" | Cap nat "char \<Rightarrow> bool"

text \<open>The first result in list order: the backtracking order of the matcher.\<close>

primrec firstSome :: "('a \<Rightarrow> 'b option) \<Rightarrow> 'a list \<Rightarrow> 'b option" where
  "firstSome f [] = None"
| "firstSome f (x # xs) = (case f x of Some y \<Rightarrow> Some y | None \<Rightarrow> firstSome f xs)"

text \<open>
  The lengths a greedy repetition tries at the start of \<open>s\<close>, longest first: from the whole
  run of class characters down to the minimum.
\<close>

definition greedy :: "nat \<Rightarrow> (char \<Rightarrow> bool) \<Rightarrow> string \<Rightarrow> nat list" where
  "greedy n cls s = rev [n..<Suc (length (takeWhile cls s))]"

text \<open>
  A match of the items at the start of \<open>s\<close>, with the leftmost-first preference of Go's
  \<open>regexp\<close> package (that of a backtracking matcher): the texts of the capturing groups in
  order, and the input left after the match; \<open>None\<close> when the items do not match here.
\<close>

primrec matchItems :: "item list \<Rightarrow> string \<Rightarrow> (string list \<times> string) option" where
  "matchItems [] s = Some ([], s)"
| "matchItems (i # is) s =
     (case i of
        Lit l \<Rightarrow> if prefix l s then matchItems is (drop (length l) s) else None
      | Rep n cls \<Rightarrow> firstSome (\<lambda>k. matchItems is (drop k s)) (greedy n cls s)
      | Cap n cls \<Rightarrow>
          firstSome
            (\<lambda>k. case matchItems is (drop k s) of
                    None \<Rightarrow> None
                  | Some (groups, rest) \<Rightarrow> Some (take k s # groups, rest))
            (greedy n cls s))"

text \<open>
  A replacement template of \<open>ReplaceAllString\<close>: literal text and references \<open>$n\<close> to the
  \<open>n\<close>-th capturing group (\<open>n \<ge> 1\<close>; a group that does not exist expands to nothing). In
  \<open>$1.md\<close> the name of the reference ends at the dot.
\<close>

datatype piece = Text string | Ref nat

definition expand :: "piece list \<Rightarrow> string list \<Rightarrow> string" where
  "expand template groups =
     concat (map (\<lambda>p. case p of
                         Text t \<Rightarrow> t
                       | Ref n \<Rightarrow> if 0 < n \<and> n \<le> length groups then groups ! (n - 1) else [])
                 template)"

text \<open>
  \<open>re.ReplaceAllString(src, repl)\<close>: the input is scanned from the left; at the leftmost
  position where the pattern matches, the match is replaced by the expanded template and
  the scan goes on after the match; a character where no match starts is copied. Every
  pattern of this program starts with a literal, so a match is never empty (lemma
  \<open>patterns_consume\<close> below); the test on the length only tells the definition so, and
  Go's treatment of empty matches is not modelled.
\<close>

fun ReplaceAllString :: "item list \<Rightarrow> string \<Rightarrow> piece list \<Rightarrow> string" where
  "ReplaceAllString re [] repl = []"
| "ReplaceAllString re (c # cs) repl =
     (case matchItems re (c # cs) of
        None \<Rightarrow> c # ReplaceAllString re cs repl
      | Some (groups, rest) \<Rightarrow>
          if length rest \<le> length cs then expand repl groups @ ReplaceAllString re rest repl
          else c # ReplaceAllString re cs repl)"

text \<open>
  \<open>strings.ReplaceAll(s, old, new)\<close> for a non-empty \<open>old\<close>, which every call of this
  program passes: the non-overlapping instances of \<open>old\<close>, found from the left, are replaced
  by \<open>new\<close>. (For an empty \<open>old\<close> Go inserts \<open>new\<close> around every code point; that case is
  not modelled, the function returns \<open>s\<close>.)
\<close>

fun ReplaceAll :: "string \<Rightarrow> string \<Rightarrow> string \<Rightarrow> string" where
  "ReplaceAll [] old new = []"
| "ReplaceAll (c # cs) old new =
     (if old \<noteq> [] \<and> prefix old (c # cs) then new @ ReplaceAll (drop (length old - 1) cs) old new
      else c # ReplaceAll cs old new)"

subsection \<open>The Link Rewriter\<close>

text \<open>The character classes of the patterns.\<close>

definition digit :: "char \<Rightarrow> bool" where
  "digit c = (c \<in> set ''0123456789'')"

definition lower :: "char \<Rightarrow> bool" where
  "lower c = (c \<in> set ''abcdefghijklmnopqrstuvwxyz'')"

definition upper :: "char \<Rightarrow> bool" where
  "upper c = (c \<in> set ''ABCDEFGHIJKLMNOPQRSTUVWXYZ'')"

text \<open>\<open>[0-9a-zA-Z.]\<close>\<close>

definition fileIdChar :: "char \<Rightarrow> bool" where
  "fileIdChar c = (digit c \<or> lower c \<or> upper c \<or> c = CHR ''.'')"

text \<open>\<open>[0-9a-zA-Z-.]\<close>: the hyphen after a range is the character itself.\<close>

definition imgIdChar :: "char \<Rightarrow> bool" where
  "imgIdChar c = (digit c \<or> lower c \<or> upper c \<or> c = CHR ''-'' \<or> c = CHR ''.'')"

text \<open>\<open>[^)]\<close>: a negated class matches every other byte, the newline too.\<close>

definition notParen :: "char \<Rightarrow> bool" where
  "notParen c = (c \<noteq> CHR 0x29)"

text \<open>\<open>#{([0-9]+)}\<close>\<close>

definition mdLinkPattern :: "item list" where
  "mdLinkPattern = [Lit ''#{'', Cap 1 digit, Lit ''}'']"

text \<open>\<open>https://docbase\.io/file_attachments/([0-9a-zA-Z.]+)\<close>\<close>

definition fileLinkPattern :: "item list" where
  "fileLinkPattern = [Lit ''https://docbase.io/file_attachments/'', Cap 1 fileIdChar]"

text \<open>\<open>!\[[a-z]+]\(/images/file_icons/[a-z]+\.svg\)\<close>\<close>

definition fileIconPattern :: "item list" where
  "fileIconPattern =
     [Lit ''!['', Rep 1 lower, Lit ''](/images/file_icons/'', Rep 1 lower, Lit ''.svg)'']"

text \<open>\<open>https://image\.docbase\.io/uploads/([0-9a-zA-Z-.]+)[^)]*\<close>\<close>

definition imgLinkPrefix :: string where
  "imgLinkPrefix = ''https://image.docbase.io/uploads/''"

definition imgLinkPattern :: "item list" where
  "imgLinkPattern = [Lit imgLinkPrefix, Cap 1 imgIdChar, Rep 0 notParen]"

text \<open>The link glyph U+1F517 and the page glyph U+1F4C4 U+FE0F, in UTF-8.\<close>

definition linkGlyph :: string where
  "linkGlyph = [CHR 0xF0, CHR 0x9F, CHR 0x94, CHR 0x97]"

definition pageGlyph :: string where
  "pageGlyph = [CHR 0xF0, CHR 0x9F, CHR 0x93, CHR 0x84, CHR 0xEF, CHR 0xB8, CHR 0x8F]"

text \<open>The template of line 274: the glyph, a blank and \<open><a href="$1.md">$1.md</a>\<close>.\<close>

definition mdLinkTemplate :: "piece list" where
  "mdLinkTemplate =
     [Text (linkGlyph @ '' <a href='' @ [CHR 0x22]), Ref 1, Text (''.md'' @ [CHR 0x22] @ ''>''),
      Ref 1, Text ''.md</a>'']"

definition checkboxOff :: string where
  "checkboxOff = ''<input type='' @ [CHR 0x22] @ ''checkbox'' @ [CHR 0x22] @ '' disabled></input>''"

definition checkboxOn :: string where
  "checkboxOn =
     ''<input type='' @ [CHR 0x22] @ ''checkbox'' @ [CHR 0x22] @ '' disabled checked></input>''"

text \<open>The seven assignments of \<open>fixLinks\<close>, lines 274-280, one function each.\<close>

definition mdLinkRule :: "string \<Rightarrow> string" where
  "mdLinkRule s = ReplaceAllString mdLinkPattern s mdLinkTemplate"

definition fileLinkRule :: "string \<Rightarrow> string" where
  "fileLinkRule s = ReplaceAllString fileLinkPattern s [Ref 1]"

definition fileIconRule :: "string \<Rightarrow> string" where
  "fileIconRule s = ReplaceAllString fileIconPattern s [Text pageGlyph]"

definition imgLinkRule :: "string \<Rightarrow> string" where
  "imgLinkRule s = ReplaceAllString imgLinkPattern s [Ref 1]"

definition checkboxOffRule :: "string \<Rightarrow> string" where
  "checkboxOffRule s = ReplaceAll s ''[ ]'' checkboxOff"

definition checkboxOnRule :: "string \<Rightarrow> string" where
  "checkboxOnRule s = ReplaceAll s ''[x]'' checkboxOn"

definition guidanceRule :: "string \<Rightarrow> string" where
  "guidanceRule s = ReplaceAll s ''/guidance/'' ''https://help.docbase.io/guidance/''"

text \<open>\<open>fixLinks\<close>, lines 272-282.\<close>

definition fixLinks :: "string \<Rightarrow> string" where
  "fixLinks input =
     (let s = input;
          s = mdLinkRule s;
          s = fileLinkRule s;
          s = fileIconRule s;
          s = imgLinkRule s;
          s = checkboxOffRule s;
          s = checkboxOnRule s;
          s = guidanceRule s
      in s)"

subsection \<open>The emoji pass\<close>

text \<open>\<open>emojiDict\<close>, in the order of the source text; the glyphs are their UTF-8 bytes.\<close>

definition emojiDict :: "(string \<times> string) list" where
  "emojiDict =
     [(''+1'', [CHR 0xF0, CHR 0x9F, CHR 0x91, CHR 0x8D]),
      (''-1'', [CHR 0xF0, CHR 0x9F, CHR 0x91, CHR 0x8E]),
      (''bulb'', [CHR 0xF0, CHR 0x9F, CHR 0x92, CHR 0xA1]),
      (''computer'', [CHR 0xF0, CHR 0x9F, CHR 0x92, CHR 0xBB]),
      (''inbox_tray'', [CHR 0xF0, CHR 0x9F, CHR 0x93, CHR 0xA5]),
      (''link'', [CHR 0xF0, CHR 0x9F, CHR 0x94, CHR 0x97]),
      (''lock'', [CHR 0xF0, CHR 0x9F, CHR 0x94, CHR 0x92]),
      (''mag'', [CHR 0xF0, CHR 0x9F, CHR 0x94, CHR 0x8D]),
      (''memo'', [CHR 0xF0, CHR 0x9F, CHR 0x93, CHR 0x9D]),
      (''moneybag'', [CHR 0xF0, CHR 0x9F, CHR 0x92, CHR 0xB0]),
      (''movie_camera'', [CHR 0xF0, CHR 0x9F, CHR 0x8E, CHR 0xA5]),
      (''poop'', [CHR 0xF0, CHR 0x9F, CHR 0x92, CHR 0xA9]),
      (''pray'', [CHR 0xF0, CHR 0x9F, CHR 0x99, CHR 0x8F]),
      (''shit'', [CHR 0xF0, CHR 0x9F, CHR 0x92, CHR 0xA9]),
      (''sparkle'', [CHR 0xE2, CHR 0x9C, CHR 0xA8]),
      (''sparkles'', [CHR 0xE2, CHR 0x9C, CHR 0xA8]),
      (''speech_balloon'', [CHR 0xF0, CHR 0x9F, CHR 0x92, CHR 0xAC]),
      (''unlock'', [CHR 0xF0, CHR 0x9F, CHR 0x94, CHR 0x93])]"

text \<open>The text \<open>":"+k+":"\<close> that the loop body looks for.\<close>

definition shortcode :: "string \<Rightarrow> string" where
  "shortcode k = '':'' @ k @ '':''"

text \<open>
  \<open>for k, v := range emojiDict\<close> visits every entry of the map once, in an order that Go
  leaves unspecified and varies from run to run. \<open>fixEmoji\<close> therefore takes the order of
  the visit as an argument: any list with the entries of \<open>emojiDict\<close>, each once.
\<close>

definition iterationOrder :: "(string \<times> string) list \<Rightarrow> bool" where
  "iterationOrder order = (mset order = mset emojiDict)"

definition fixEmoji :: "(string \<times> string) list \<Rightarrow> string \<Rightarrow> string" where
  "fixEmoji order input = fold (\<lambda>(k, v) s. ReplaceAll s (shortcode k) v) order input"

subsection \<open>The environment of the handlers\<close>

text \<open>A Go \<open>error\<close> value, as far as the program looks at it: its \<open>Error()\<close> text.\<close>

datatype error = GoError string

fun errorText :: "error \<Rightarrow> string" where
  "errorText (GoError msg) = msg"

text \<open>
  An opened file, as \<open>bufio.Scanner\<close> and \<open>Close\<close> present it: the tokens (lines) for
  which \<open>Scan()\<close> returns true, the error \<open>scanner.Err()\<close> holds once \<open>Scan()\<close> has
  returned false (\<open>None\<close> is \<open>nil\<close>: the end of the file was reached), and the result of
  \<open>f.Close()\<close>.
\<close>

record File =
  Tokens :: "string list"
  ScanErr :: "error option"
  CloseErr :: "error option"

text \<open>The struct \<open>document\<close>, lines 63-66.\<close>

record document =
  FileName :: string
  Title :: string

text \<open>
  The operating system and the libraries the handlers call. Each call can fail on its own:
  a path that \<open>os.Stat\<close> accepts can still fail to open or to read. The embedded assets
  (\<open>doc.css\<close> and the two templates) are not part of the source file; the stylesheet is the
  field \<open>docCSS\<close>, and a template is the function that executes it: the bytes it writes to
  the response, and its error.
\<close>

record env =
  Stat :: "string \<Rightarrow> error option"
  Open :: "string \<Rightarrow> error + File"
  ReadFile :: "string \<Rightarrow> error + string"
  Join :: "string \<Rightarrow> string \<Rightarrow> string"
  ToLower :: "string \<Rightarrow> string"
  DetectContentType :: "string \<Rightarrow> string"
  ToHTML :: "string \<Rightarrow> string"
  docCSS :: string
  indexTemplate :: "document list \<Rightarrow> string \<times> error option"
  documentTemplate :: "string \<Rightarrow> string \<Rightarrow> string \<times> error option"
  emojiOrder :: "(string \<times> string) list"

text \<open>The package-level variables that \<open>main\<close> sets before it starts to serve.\<close>

record server =
  basicUser :: string
  basicPassword :: string
  mdDir :: string
  imgDir :: string
  fileDir :: string
  mdEntries :: "document list"
  imgLinkToNameMap :: "string \<rightharpoonup> string"
  fileLinkToNameMap :: "string \<rightharpoonup> string"

text \<open>
  A request, as far as the handlers read it: \<open>r.Method\<close>, \<open>r.URL.Path\<close>, and the result of
  \<open>r.BasicAuth()\<close> (\<open>None\<close> when \<open>ok\<close> is false: no or no well-formed Basic credential).
\<close>

record request =
  Method :: string
  Path :: string
  BasicAuth :: "(string \<times> string) option"

text \<open>What the client receives. The calls of \<open>log.Printf\<close> do not touch it and are left out.\<close>

record response =
  Status :: nat
  Header :: "string \<rightharpoonup> string"
  Body :: string

subsection \<open>The handlers\<close>

text \<open>
  \<open>http.Error(w, msg, code)\<close> on the headers set so far: a plain-text body, the message
  and a newline.
\<close>

definition httpError :: "(string \<rightharpoonup> string) \<Rightarrow> string \<Rightarrow> nat \<Rightarrow> response" where
  "httpError hdr msg code =
     \<lparr>Status = code,
      Header = hdr(''Content-Type'' \<mapsto> ''text/plain; charset=utf-8'',
                   ''X-Content-Type-Options'' \<mapsto> ''nosniff''),
      Body = msg @ [CHR 0x0A]\<rparr>"

definition NotFound :: response where
  "NotFound = httpError Map.empty ''404 page not found'' 404"

text \<open>\<open>write\<close>, lines 229-235 (\<open>write\<close> is a keyword of Isabelle).\<close>

definition write_response :: "string \<Rightarrow> string \<Rightarrow> response" where
  "write_response content contentType =
     \<lparr>Status = 200, Header = [''Content-Type'' \<mapsto> contentType], Body = content\<rparr>"

text \<open>
  \<open>headAndContent\<close>, lines 254-270. When the file opens, the deferred function runs after
  \<open>err = scanner.Err()\<close> and assigns the result of \<open>f.Close()\<close> to the named result
  \<open>err\<close>.
\<close>

definition deferredClose :: "File \<Rightarrow> error option \<Rightarrow> error option" where
  "deferredClose f err = CloseErr f"

definition headAndContent :: "env \<Rightarrow> string \<Rightarrow> string \<times> string \<times> error option" where
  "headAndContent os filePath =
     (case Open os filePath of
        Inl err \<Rightarrow> ([], [], Some err)
      | Inr f \<Rightarrow>
          let head = (case Tokens f of [] \<Rightarrow> [] | t # _ \<Rightarrow> t);
              content = concat (map (\<lambda>t. t @ [CHR 0x0A]) (tl (Tokens f)));
              err = ScanErr f
          in (head, content, deferredClose f err))"

text \<open>\<open>handleIndex\<close>, lines 165-171: the status is 200 whatever the template does.\<close>

definition handleIndex :: "server \<Rightarrow> env \<Rightarrow> response" where
  "handleIndex srv os =
     \<lparr>Status = 200, Header = Map.empty, Body = fst (indexTemplate os (mdEntries srv))\<rparr>"

text \<open>\<open>handleMarkdown\<close>, lines 173-193.\<close>

definition handleMarkdown :: "server \<Rightarrow> env \<Rightarrow> string \<Rightarrow> response" where
  "handleMarkdown srv os fileName =
     (let filePath = Join os (mdDir srv) fileName in
      case Stat os filePath of
        Some _ \<Rightarrow> NotFound
      | None \<Rightarrow>
          (case headAndContent os filePath of
             (title, content, Some err) \<Rightarrow> httpError Map.empty (errorText err) 500
           | (title, content, None) \<Rightarrow>
               let htmlContent = ToHTML os (fixEmoji (emojiOrder os) (fixLinks content))
               in \<lparr>Status = 200, Header = Map.empty,
                   Body = fst (documentTemplate os title htmlContent)\<rparr>))"

text \<open>\<open>handleImage\<close>, lines 195-210.\<close>

definition handleImage :: "server \<Rightarrow> env \<Rightarrow> string \<Rightarrow> response" where
  "handleImage srv os fileName =
     (case imgLinkToNameMap srv fileName of
        None \<Rightarrow> NotFound
      | Some actualImageName \<Rightarrow>
          (case ReadFile os (Join os (imgDir srv) actualImageName) of
             Inl err \<Rightarrow> httpError Map.empty (errorText err) 500
           | Inr content \<Rightarrow> write_response content (DetectContentType os content)))"

text \<open>\<open>handleFile\<close>, lines 212-227.\<close>

definition handleFile :: "server \<Rightarrow> env \<Rightarrow> string \<Rightarrow> response" where
  "handleFile srv os fileName =
     (case fileLinkToNameMap srv fileName of
        None \<Rightarrow> NotFound
      | Some actualFileName \<Rightarrow>
          (case ReadFile os (Join os (fileDir srv) actualFileName) of
             Inl err \<Rightarrow> httpError Map.empty (errorText err) 500
           | Inr content \<Rightarrow> write_response content (DetectContentType os content)))"

text \<open>The value of the challenge header, line 140; the realm is Japanese text in UTF-8.\<close>

definition challenge :: string where
  "challenge =
     ''Basic realm='' @ [CHR 0x22] @
     [CHR 0xE3, CHR 0x83, CHR 0xAD, CHR 0xE3, CHR 0x82, CHR 0xB0, CHR 0xE3, CHR 0x82, CHR 0xA4,
      CHR 0xE3, CHR 0x83, CHR 0xB3, CHR 0xE3, CHR 0x81, CHR 0x97, CHR 0xE3, CHR 0x81, CHR 0xA6,
      CHR 0xE3, CHR 0x81, CHR 0x8F, CHR 0xE3, CHR 0x81, CHR 0xA0, CHR 0xE3, CHR 0x81, CHR 0x95,
      CHR 0xE3, CHR 0x81, CHR 0x84] @ [CHR 0x22]"

text \<open>\<open>strings.TrimPrefix(s, "/")\<close> and \<open>strings.HasSuffix\<close>.\<close>

definition TrimPrefix :: "string \<Rightarrow> string \<Rightarrow> string" where
  "TrimPrefix s p = (if prefix p s then drop (length p) s else s)"

definition HasSuffix :: "string \<Rightarrow> string \<Rightarrow> bool" where
  "HasSuffix s suf = suffix suf s"

text \<open>\<open>catchAll\<close>, lines 133-163.\<close>

definition catchAll :: "server \<Rightarrow> env \<Rightarrow> request \<Rightarrow> response" where
  "catchAll srv os r =
     (if Method r \<noteq> ''GET'' then httpError Map.empty ''Method Not Allowed'' 405
      else if basicUser srv \<noteq> [] \<and>
              (case BasicAuth r of
                 None \<Rightarrow> True
               | Some (ident, secret) \<Rightarrow> ident \<noteq> basicUser srv \<or> secret \<noteq> basicPassword srv)
      then httpError [''WWW-Authenticate'' \<mapsto> challenge] ''Unauthorized'' 401
      else
        let fileName = TrimPrefix (Path r) ''/'' in
        if length fileName = 0 then handleIndex srv os
        else if HasSuffix (ToLower os fileName) ''.md'' then handleMarkdown srv os fileName
        else if HasSuffix (ToLower os fileName) ''.jpg'' \<or>
                HasSuffix (ToLower os fileName) ''.jpeg'' \<or>
                HasSuffix (ToLower os fileName) ''.png'' \<or>
                HasSuffix (ToLower os fileName) ''.gif'' then handleImage srv os fileName
        else handleFile srv os fileName)"

text \<open>
  The three registrations of \<open>main\<close>, lines 124-126, on the default \<open>ServeMux\<close>: a request
  whose path is exactly \<open>/doc.css\<close> or \<open>/favicon.ico\<close> goes to the handler registered for
  that path, every other one to \<open>catchAll\<close>, registered for \<open>/\<close>. (For a path that is not
  in canonical form the mux answers with a redirect to the cleaned path before any handler
  runs; that answer of the library is not modelled.)
\<close>

definition serve :: "server \<Rightarrow> env \<Rightarrow> request \<Rightarrow> response" where
  "serve srv os r =
     (if Path r = ''/favicon.ico'' then NotFound
      else if Path r = ''/doc.css'' then write_response (docCSS os) ''text/css''
      else catchAll srv os r)"

text \<open>
  Fixtures for the concrete evaluations below: a file system whose files all exist and open,
  where a scan stops after two lines with the error of a line that is too long for the
  scanner's buffer, and a server with the shared credential \<open>admin\<close> / \<open>secret\<close>.
\<close>

definition tooLong :: error where
  "tooLong = GoError ''bufio.Scanner: token too long''"

definition fixtureEnv :: env where
  "fixtureEnv =
     \<lparr>Stat = (\<lambda>p. None),
      Open = (\<lambda>p. Inr \<lparr>Tokens = [''Title'', ''first line''], ScanErr = Some tooLong, CloseErr = None\<rparr>),
      ReadFile = (\<lambda>p. Inl (GoError ''read: input/output error'')),
      Join = (\<lambda>d n. d @ ''/'' @ n),
      ToLower = (\<lambda>s. s),
      DetectContentType = (\<lambda>c. ''application/octet-stream''),
      ToHTML = (\<lambda>s. s),
      docCSS = ''body { margin: 0 }'',
      indexTemplate = (\<lambda>docs. (concat (map Title docs), None)),
      documentTemplate = (\<lambda>title html. (title @ html, None)),
      emojiOrder = emojiDict\<rparr>"

definition fixtureServer :: server where
  "fixtureServer =
     \<lparr>basicUser = ''admin'', basicPassword = ''secret'',
      mdDir = ''md'', imgDir = ''img'', fileDir = ''file'',
      mdEntries = [\<lparr>FileName = ''1.md'', Title = ''Title''\<rparr>],
      imgLinkToNameMap = buildIndex [\<lparr>Name = ''12_photo.png'', IsDir = False\<rparr>],
      fileLinkToNameMap = buildIndex [\<lparr>Name = ''7_report.pdf'', IsDir = False\<rparr>]\<rparr>"

subsection \<open>Notions used in the proofs\<close>

text \<open>
  An item rejects a character that it can never consume: a literal in which the character
  does not occur, a class to which it does not belong.
\<close>

fun rejects :: "char \<Rightarrow> item \<Rightarrow> bool" where
  "rejects x (Lit l) = (x \<notin> set l)"
| "rejects x (Rep n cls) = (\<not> cls x)"
| "rejects x (Cap n cls) = (\<not> cls x)"

text \<open>
  The text that reaches the image rule (the value of \<open>s\<close> after line 276), the text that
  reaches the checkbox rules (after line 277), and what lines 278-280 make of it.
\<close>

definition beforeImageRule :: "string \<Rightarrow> string" where
  "beforeImageRule input = fileIconRule (fileLinkRule (mdLinkRule input))"

definition patternRules :: "string \<Rightarrow> string" where
  "patternRules input = imgLinkRule (beforeImageRule input)"

definition literalRules :: "string \<Rightarrow> string" where
  "literalRules s = guidanceRule (checkboxOnRule (checkboxOffRule s))"

text \<open>The text that line 274 puts in the place of \<open>#{ds}\<close>.\<close>

definition mdLinkText :: "string \<Rightarrow> string" where
  "mdLinkText ds =
     linkGlyph @ '' <a href='' @ [CHR 0x22] @ ds @ ''.md'' @ [CHR 0x22] @ ''>'' @ ds @ ''.md</a>''"

subsection \<open>Facts about \<open>strings.ReplaceAll\<close>\<close>

lemma ReplaceAll_Cons_match:
  "old \<noteq> [] \<Longrightarrow> prefix old (c # cs) \<Longrightarrow>
   ReplaceAll (c # cs) old new = new @ ReplaceAll (drop (length old - 1) cs) old new"
  by simp

lemma ReplaceAll_Cons_no_match:
  "\<not> (old \<noteq> [] \<and> prefix old (c # cs)) \<Longrightarrow>
   ReplaceAll (c # cs) old new = c # ReplaceAll cs old new"
  by auto

lemma sublist_of_suffix:
  assumes "sublist w t" and "suffix t s"
  shows "sublist w s"
proof -
  from assms obtain ps ss zs where "t = ps @ w @ ss" "s = zs @ t"
    by (auto simp: sublist_def suffix_def)
  then have "s = (zs @ ps) @ w @ ss" by simp
  then show ?thesis unfolding sublist_def by blast
qed

lemma ReplaceAll_match:
  "old \<noteq> [] \<Longrightarrow> ReplaceAll (old @ rest) old new = new @ ReplaceAll rest old new"
  by (cases old) simp_all

lemma ReplaceAll_skip:
  "old \<noteq> [] \<Longrightarrow> hd old \<notin> set a \<Longrightarrow> ReplaceAll (a @ rest) old new = a @ ReplaceAll rest old new"
proof (induction a)
  case Nil
  then show ?case by simp
next
  case (Cons c a)
  then have "\<not> prefix old (c # a @ rest)"
    by (cases old) auto
  with Cons show ?case by simp
qed

lemma ReplaceAll_absent:
  assumes "x \<in> set old" and "x \<notin> set s"
  shows "ReplaceAll s old new = s"
  using assms(2)
proof (induction s)
  case Nil
  then show ?case by simp
next
  case (Cons c s)
  have "\<not> prefix old (c # s)"
  proof
    assume "prefix old (c # s)"
    then have "set old \<subseteq> set (c # s)" by (rule set_mono_prefix)
    with assms(1) Cons.prems show False by auto
  qed
  with Cons show ?case by simp
qed

lemma prefix_append_stop:
  assumes "x \<notin> set w"
  shows "prefix w (a @ x # v) \<longleftrightarrow> prefix w a"
proof
  assume "prefix w (a @ x # v)"
  then have "prefix w a \<or> (\<exists>us. w = a @ us \<and> prefix us (x # v))"
    by (simp add: prefix_append)
  then show "prefix w a"
  proof
    assume "prefix w a"
    then show ?thesis .
  next
    assume "\<exists>us. w = a @ us \<and> prefix us (x # v)"
    then obtain us where us: "w = a @ us" "prefix us (x # v)" by blast
    show ?thesis
    proof (cases us)
      case Nil
      with us show ?thesis by simp
    next
      case (Cons y ys)
      with us have "x \<in> set w" by simp
      with assms show ?thesis by simp
    qed
  qed
next
  assume "prefix w a"
  then show "prefix w (a @ x # v)" by (rule prefix_prefix)
qed

text \<open>
  A character that occurs in \<open>old\<close> at most as its first character cuts the scan in two: no
  instance of \<open>old\<close> reaches across it.
\<close>

lemma ReplaceAll_sync:
  assumes "x \<notin> set (tl old)"
  shows "ReplaceAll (a @ x # v) old new = ReplaceAll a old new @ ReplaceAll (x # v) old new"
  using assms
proof (induction a old new rule: ReplaceAll.induct)
  case (1 old new)
  then show ?case by simp
next
  case (2 c cs old new)
  show ?case
  proof (cases "old \<noteq> [] \<and> prefix old (c # cs)")
    case True
    then obtain os where os: "old = c # os" "prefix os cs"
      by (cases old) auto
    have p: "prefix old (c # cs @ x # v)" using os by (simp add: prefix_prefix)
    have d: "drop (length old - 1) (cs @ x # v) = drop (length old - 1) cs @ x # v"
      using os by (simp add: prefix_length_le)
    have "ReplaceAll ((c # cs) @ x # v) old new
        = new @ ReplaceAll (drop (length old - 1) cs @ x # v) old new"
      using ReplaceAll_Cons_match [of old c "cs @ x # v" new] True p d by simp
    also have "\<dots> = new @ ReplaceAll (drop (length old - 1) cs) old new @ ReplaceAll (x # v) old new"
      using "2.IH"(1) [OF True "2.prems"] by simp
    also have "\<dots> = ReplaceAll (c # cs) old new @ ReplaceAll (x # v) old new"
      using ReplaceAll_Cons_match [of old c cs new] True by simp
    finally show ?thesis .
  next
    case False
    have np: "\<not> (old \<noteq> [] \<and> prefix old (c # cs @ x # v))"
    proof
      assume a: "old \<noteq> [] \<and> prefix old (c # cs @ x # v)"
      then obtain os where os: "old = c # os" "prefix os (cs @ x # v)"
        by (cases old) auto
      with "2.prems" have "prefix os cs" by (simp add: prefix_append_stop)
      with os False show False by simp
    qed
    have "ReplaceAll ((c # cs) @ x # v) old new = c # ReplaceAll (cs @ x # v) old new"
      using ReplaceAll_Cons_no_match [OF np] by simp
    also have "\<dots> = c # ReplaceAll cs old new @ ReplaceAll (x # v) old new"
      using "2.IH"(2) [OF False "2.prems"] by simp
    also have "\<dots> = ReplaceAll (c # cs) old new @ ReplaceAll (x # v) old new"
      using ReplaceAll_Cons_no_match [OF False] by simp
    finally show ?thesis .
  qed
qed

lemma ReplaceAll_sync_block:
  assumes "g \<noteq> []" and "set g \<inter> set old = {}" and "old \<noteq> []"
  shows "ReplaceAll (a @ g @ v) old new = ReplaceAll a old new @ g @ ReplaceAll v old new"
proof -
  obtain x g' where g: "g = x # g'" using assms(1) by (cases g) auto
  have x: "x \<notin> set old" "hd old \<notin> set g" using assms g
    by (auto simp: disjoint_iff)
  then have "x \<notin> set (tl old)" by (metis list.set_sel(2) assms(3))
  then have "ReplaceAll (a @ x # g' @ v) old new
      = ReplaceAll a old new @ ReplaceAll (x # g' @ v) old new"
    by (rule ReplaceAll_sync)
  also have "ReplaceAll (x # g' @ v) old new = g @ ReplaceAll v old new"
    using ReplaceAll_skip [OF assms(3) x(2), of v new] g by simp
  finally show ?thesis using g by simp
qed

text \<open>What the output starts with, the input started with, as long as \<open>new\<close> is not met.\<close>

lemma ReplaceAll_prefix:
  assumes "new \<noteq> []" and "hd new \<notin> set w" and "prefix w (ReplaceAll s old new)"
  shows "prefix w s"
  using assms
proof (induction s old new arbitrary: w rule: ReplaceAll.induct)
  case (1 old new)
  then show ?case by simp
next
  case (2 c cs old new)
  show ?case
  proof (cases w)
    case Nil
    then show ?thesis by simp
  next
    case (Cons y ys)
    show ?thesis
    proof (cases "old \<noteq> [] \<and> prefix old (c # cs)")
      case True
      with "2.prems"(3) Cons have "prefix (y # ys) (new @ ReplaceAll (drop (length old - 1) cs) old new)"
        by simp
      then have "y = hd new" using "2.prems"(1) by (cases new) auto
      with "2.prems"(2) Cons show ?thesis by simp
    next
      case False
      with "2.prems"(3) Cons have y: "y = c" and "prefix ys (ReplaceAll cs old new)"
        by auto
      moreover have "hd new \<notin> set ys" using "2.prems"(2) Cons by simp
      ultimately have "prefix ys cs" using "2.IH"(2) [OF False "2.prems"(1)] by blast
      with y Cons show ?thesis by simp
    qed
  qed
qed

lemma ReplaceAll_unchanged:
  assumes "new \<noteq> []" and "hd new \<notin> set (ReplaceAll s old new)"
  shows "ReplaceAll s old new = s"
  using assms
proof (induction s old new rule: ReplaceAll.induct)
  case (1 old new)
  then show ?case by simp
next
  case (2 c cs old new)
  show ?case
  proof (cases "old \<noteq> [] \<and> prefix old (c # cs)")
    case True
    with "2.prems" show ?thesis by (cases new) auto
  next
    case False
    with "2.prems" "2.IH"(2) show ?thesis by auto
  qed
qed

lemma ReplaceAll_suffix:
  assumes "new \<noteq> []" and "set w \<inter> set new = {}" and "suffix w (ReplaceAll s old new)"
  shows "suffix w s"
  using assms
proof (induction s old new rule: ReplaceAll.induct)
  case (1 old new)
  then show ?case by simp
next
  case (2 c cs old new)
  show ?case
  proof (cases "old \<noteq> [] \<and> prefix old (c # cs)")
    case True
    let ?rest = "drop (length old - 1) cs"
    from True "2.prems"(3) have "suffix w (new @ ReplaceAll ?rest old new)" by simp
    then have "suffix w (ReplaceAll ?rest old new) \<or>
        (\<exists>xs'. suffix xs' new \<and> xs' \<noteq> [] \<and> w = xs' @ ReplaceAll ?rest old new)"
      by (auto simp: suffix_append)
    then show ?thesis
    proof
      assume "suffix w (ReplaceAll ?rest old new)"
      then have "suffix w ?rest" using "2.IH"(1) [OF True "2.prems"(1,2)] by blast
      then have "suffix w cs" using suffix_drop suffix_order.trans by blast
      then show ?thesis by (rule suffix_ConsI)
    next
      assume "\<exists>xs'. suffix xs' new \<and> xs' \<noteq> [] \<and> w = xs' @ ReplaceAll ?rest old new"
      then obtain xs' where xs: "suffix xs' new" "xs' \<noteq> []" "w = xs' @ ReplaceAll ?rest old new"
        by blast
      have "last xs' \<in> set xs'" using xs(2) by simp
      moreover have "set xs' \<subseteq> set new" using xs(1) by (rule set_mono_suffix)
      moreover have "set xs' \<subseteq> set w" using xs(3) by simp
      ultimately have "last xs' \<in> set new" "last xs' \<in> set w" by blast+
      with "2.prems"(2) show ?thesis by auto
    qed
  next
    case False
    with "2.prems"(3) have "suffix w (c # ReplaceAll cs old new)" by simp
    then have "w = c # ReplaceAll cs old new \<or> suffix w (ReplaceAll cs old new)"
      by (simp add: suffix_Cons)
    then show ?thesis
    proof
      assume w: "w = c # ReplaceAll cs old new"
      then have "hd new \<notin> set (ReplaceAll cs old new)"
        using "2.prems"(1,2) by (cases new) auto
      with "2.prems"(1) have "ReplaceAll cs old new = cs" by (rule ReplaceAll_unchanged)
      with w show ?thesis by simp
    next
      assume "suffix w (ReplaceAll cs old new)"
      then have "suffix w cs" using "2.IH"(2) [OF False "2.prems"(1,2)] by blast
      then show ?thesis by (rule suffix_ConsI)
    qed
  qed
qed

lemma sublist_skip:
  assumes "w \<noteq> []" and "hd w \<notin> set u" and "sublist w (u @ v)"
  shows "sublist w v"
  using assms(2,3)
proof (induction u)
  case Nil
  then show ?case by simp
next
  case (Cons c u)
  from Cons.prems(2) have "prefix w (c # u @ v) \<or> sublist w (u @ v)"
    by (simp add: sublist_Cons_right)
  then show ?case
  proof
    assume "prefix w (c # u @ v)"
    then have "hd w = c" using assms(1) by (cases w) auto
    with Cons.prems(1) show ?thesis by simp
  next
    assume "sublist w (u @ v)"
    with Cons show ?thesis by simp
  qed
qed

text \<open>A pass does not create an instance of a text \<open>w\<close> that cannot overlap \<open>new\<close>.\<close>

lemma ReplaceAll_preserves_absence:
  assumes "new \<noteq> []" and "w \<noteq> []" and "hd w \<notin> set new" and "hd new \<notin> set w"
    and "\<not> sublist w s"
  shows "\<not> sublist w (ReplaceAll s old new)"
  using assms
proof (induction s old new rule: ReplaceAll.induct)
  case (1 old new)
  then show ?case by simp
next
  case (2 c cs old new)
  show ?case
  proof (cases "old \<noteq> [] \<and> prefix old (c # cs)")
    case True
    let ?rest = "drop (length old - 1) cs"
    have "\<not> sublist w ?rest"
    proof
      assume "sublist w ?rest"
      moreover have "suffix ?rest (c # cs)"
        using suffix_drop [of "length old - 1" cs] by (rule suffix_ConsI)
      ultimately have "sublist w (c # cs)" by (rule sublist_of_suffix)
      with "2.prems"(5) show False by simp
    qed
    then have "\<not> sublist w (ReplaceAll ?rest old new)"
      using "2.IH"(1) [OF True "2.prems"(1-4)] by blast
    then have "\<not> sublist w (new @ ReplaceAll ?rest old new)"
      using sublist_skip [OF "2.prems"(2,3)] by blast
    with True show ?thesis using ReplaceAll_Cons_match [of old c cs new] by simp
  next
    case False
    have "\<not> sublist w cs" using "2.prems"(5) by (simp add: sublist_Cons_right)
    then have ih: "\<not> sublist w (ReplaceAll cs old new)"
      using "2.IH"(2) [OF False "2.prems"(1-4)] by blast
    have "\<not> prefix w (c # ReplaceAll cs old new)"
    proof
      assume p: "prefix w (c # ReplaceAll cs old new)"
      obtain y ys where w: "w = y # ys" using "2.prems"(2) by (cases w) auto
      with p have "y = c" "prefix ys (ReplaceAll cs old new)" by auto
      moreover have "hd new \<notin> set ys" using "2.prems"(4) w by simp
      ultimately have "prefix ys cs" using ReplaceAll_prefix [OF "2.prems"(1)] by blast
      with \<open>y = c\<close> w have "prefix w (c # cs)" by simp
      with "2.prems"(5) show False by (simp add: sublist_Cons_right)
    qed
    with ih show ?thesis using ReplaceAll_Cons_no_match [OF False]
      by (simp add: sublist_Cons_right)
  qed
qed

text \<open>After a pass no instance of \<open>old\<close> is left, when \<open>old\<close> and \<open>new\<close> cannot overlap.\<close>

lemma ReplaceAll_removes_all:
  assumes "old \<noteq> []" and "new \<noteq> []" and "hd old \<notin> set new" and "hd new \<notin> set old"
  shows "\<not> sublist old (ReplaceAll s old new)"
  using assms
proof (induction s old new rule: ReplaceAll.induct)
  case (1 old new)
  then show ?case by simp
next
  case (2 c cs old new)
  show ?case
  proof (cases "old \<noteq> [] \<and> prefix old (c # cs)")
    case True
    let ?rest = "drop (length old - 1) cs"
    have "\<not> sublist old (ReplaceAll ?rest old new)"
      using "2.IH"(1) [OF True "2.prems"] .
    then have "\<not> sublist old (new @ ReplaceAll ?rest old new)"
      using sublist_skip [OF "2.prems"(1,3)] by blast
    with True show ?thesis using ReplaceAll_Cons_match [of old c cs new] by simp
  next
    case False
    have ih: "\<not> sublist old (ReplaceAll cs old new)"
      using "2.IH"(2) [OF False "2.prems"] .
    have "\<not> prefix old (c # ReplaceAll cs old new)"
    proof
      assume p: "prefix old (c # ReplaceAll cs old new)"
      obtain y ys where w: "old = y # ys" using "2.prems"(1) by (cases old) auto
      with p have "y = c" "prefix ys (ReplaceAll cs old new)" by auto
      moreover have "hd new \<notin> set ys" using "2.prems"(4) w by simp
      ultimately have "prefix ys cs" using ReplaceAll_prefix [OF "2.prems"(2)] by blast
      with \<open>y = c\<close> w have "prefix old (c # cs)" by simp
      with False "2.prems"(1) show False by simp
    qed
    with ih show ?thesis using ReplaceAll_Cons_no_match [OF False]
      by (simp add: sublist_Cons_right)
  qed
qed

text \<open>The scan of \<open>a @ rest\<close> is the scan of \<open>a\<close>, then that of \<open>rest\<close>, when no instance
  of \<open>old\<close> that starts in \<open>a\<close> reaches into \<open>rest\<close>.\<close>

lemma ReplaceAll_split:
  assumes "\<And>t. suffix t a \<Longrightarrow> t \<noteq> [] \<Longrightarrow> prefix old (t @ rest) \<Longrightarrow> prefix old t"
  shows "ReplaceAll (a @ rest) old new = ReplaceAll a old new @ ReplaceAll rest old new"
  using assms
proof (induction a old new rule: ReplaceAll.induct)
  case (1 old new)
  then show ?case by simp
next
  case (2 c cs old new)
  show ?case
  proof (cases "old \<noteq> [] \<and> prefix old (c # cs)")
    case True
    let ?n = "length old - 1"
    from True have p: "prefix old (c # cs @ rest)"
      using prefix_prefix [of old "c # cs" rest] by simp
    from True have len: "?n \<le> length cs"
      using prefix_length_le [of old "c # cs"] by simp
    have "\<And>t. suffix t (drop ?n cs) \<Longrightarrow> t \<noteq> [] \<Longrightarrow> prefix old (t @ rest) \<Longrightarrow> prefix old t"
    proof -
      fix t assume t: "suffix t (drop ?n cs)" "t \<noteq> []" "prefix old (t @ rest)"
      have "suffix t cs" using t(1) suffix_drop suffix_order.trans by blast
      then have "suffix t (c # cs)" by (rule suffix_ConsI)
      with t "2.prems" show "prefix old t" by blast
    qed
    then have ih: "ReplaceAll (drop ?n cs @ rest) old new
        = ReplaceAll (drop ?n cs) old new @ ReplaceAll rest old new"
      using "2.IH"(1) [OF True] by blast
    have "ReplaceAll ((c # cs) @ rest) old new = new @ ReplaceAll (drop ?n cs @ rest) old new"
      using ReplaceAll_Cons_match [of old c "cs @ rest" new] True p len by simp
    also have "\<dots> = ReplaceAll (c # cs) old new @ ReplaceAll rest old new"
      using ih ReplaceAll_Cons_match [of old c cs new] True by simp
    finally show ?thesis .
  next
    case False
    have np: "\<not> (old \<noteq> [] \<and> prefix old (c # cs @ rest))"
      using False "2.prems" [of "c # cs"] by auto
    have "\<And>t. suffix t cs \<Longrightarrow> t \<noteq> [] \<Longrightarrow> prefix old (t @ rest) \<Longrightarrow> prefix old t"
      using "2.prems" by (simp add: suffix_ConsI)
    then have ih: "ReplaceAll (cs @ rest) old new = ReplaceAll cs old new @ ReplaceAll rest old new"
      using "2.IH"(2) [OF False] by blast
    have "ReplaceAll ((c # cs) @ rest) old new = c # ReplaceAll (cs @ rest) old new"
      using ReplaceAll_Cons_no_match [OF np] by simp
    also have "\<dots> = ReplaceAll (c # cs) old new @ ReplaceAll rest old new"
      using ih ReplaceAll_Cons_no_match [OF False] by simp
    finally show ?thesis .
  qed
qed

subsection \<open>Facts about the matcher and \<open>ReplaceAllString\<close>\<close>

lemma firstSome_map_option:
  "firstSome (\<lambda>k. map_option F (f k)) xs = map_option F (firstSome f xs)"
  by (induction xs) (auto split: option.splits)

lemma firstSome_cong:
  "(\<And>x. x \<in> set xs \<Longrightarrow> f x = g x) \<Longrightarrow> firstSome f xs = firstSome g xs"
  by (induction xs) (auto split: option.splits)

lemma firstSome_SomeD:
  "firstSome f xs = Some y \<Longrightarrow> \<exists>x\<in>set xs. f x = Some y"
  by (induction xs) (auto split: option.splits)

lemma firstSome_all_None:
  "(\<And>x. x \<in> set xs \<Longrightarrow> f x = None) \<Longrightarrow> firstSome f xs = None"
  by (induction xs) auto

lemma greedy_bounds:
  "k \<in> set (greedy n cls s) \<Longrightarrow> n \<le> k \<and> k \<le> length (takeWhile cls s) \<and> k \<le> length s"
proof -
  assume "k \<in> set (greedy n cls s)"
  then have "n \<le> k \<and> k \<le> length (takeWhile cls s)" by (auto simp: greedy_def)
  moreover have "length (takeWhile cls s) \<le> length s" by (rule length_takeWhile_le)
  ultimately show ?thesis by simp
qed

text \<open>The longest run is tried first.\<close>

lemma firstSome_greedy_longest:
  assumes "n \<le> length (takeWhile cls s)" and "f (length (takeWhile cls s)) = Some y"
  shows "firstSome f (greedy n cls s) = Some y"
proof -
  have "greedy n cls s = length (takeWhile cls s) # rev [n..<length (takeWhile cls s)]"
    using assms(1) by (simp add: greedy_def)
  with assms(2) show ?thesis by simp
qed

text \<open>When only the longest run can be continued, no backtracking takes place.\<close>

lemma firstSome_greedy_only_longest:
  assumes "\<And>k. n \<le> k \<Longrightarrow> k < length (takeWhile cls s) \<Longrightarrow> f k = None"
  shows "firstSome f (greedy n cls s) =
           (if n \<le> length (takeWhile cls s) then f (length (takeWhile cls s)) else None)"
proof (cases "n \<le> length (takeWhile cls s)")
  case True
  then have g: "greedy n cls s = length (takeWhile cls s) # rev [n..<length (takeWhile cls s)]"
    by (simp add: greedy_def)
  have "firstSome f (rev [n..<length (takeWhile cls s)]) = None"
    using assms by (intro firstSome_all_None) auto
  with g True show ?thesis by (simp split: option.splits)
next
  case False
  then have "greedy n cls s = []" by (simp add: greedy_def)
  with False show ?thesis by simp
qed

lemma matchItems_suffix:
  "matchItems is s = Some (groups, rest) \<Longrightarrow> suffix rest s"
proof (induction "is" arbitrary: s groups rest)
  case Nil
  then show ?case by simp
next
  case (Cons i "is")
  show ?case
  proof (cases i)
    case (Lit l)
    with Cons.prems have "matchItems is (drop (length l) s) = Some (groups, rest)"
      by (simp split: if_splits)
    then have "suffix rest (drop (length l) s)" by (rule Cons.IH)
    then show ?thesis using suffix_drop suffix_order.trans by blast
  next
    case (Rep n cls)
    with Cons.prems obtain k where "matchItems is (drop k s) = Some (groups, rest)"
      by (auto dest: firstSome_SomeD)
    then have "suffix rest (drop k s)" by (rule Cons.IH)
    then show ?thesis using suffix_drop suffix_order.trans by blast
  next
    case (Cap n cls)
    with Cons.prems obtain k where
      "(case matchItems is (drop k s) of None \<Rightarrow> None
        | Some (gs, r) \<Rightarrow> Some (take k s # gs, r)) = Some (groups, rest)"
      by (auto dest: firstSome_SomeD)
    then obtain gs where "matchItems is (drop k s) = Some (gs, rest)"
      by (auto split: option.splits)
    then have "suffix rest (drop k s)" by (rule Cons.IH)
    then show ?thesis using suffix_drop suffix_order.trans by blast
  qed
qed

text \<open>A pattern that starts with a non-empty literal consumes at least one character.\<close>

lemma matchItems_consumes:
  assumes "l \<noteq> []" and "matchItems (Lit l # is) s = Some (groups, rest)"
  shows "length rest < length s"
proof -
  from assms(2) have p: "prefix l s" and m: "matchItems is (drop (length l) s) = Some (groups, rest)"
    by (simp_all split: if_splits)
  from m have "suffix rest (drop (length l) s)" by (rule matchItems_suffix)
  then have "length rest \<le> length s - length l" using suffix_length_le by fastforce
  moreover have "0 < length l" "length l \<le> length s"
    using assms(1) p by (simp_all add: prefix_length_le)
  ultimately show ?thesis by linarith
qed

lemma patterns_consume:
  assumes "re \<in> {mdLinkPattern, fileLinkPattern, fileIconPattern, imgLinkPattern}"
    and "matchItems re s = Some (groups, rest)"
  shows "length rest < length s"
proof -
  from assms(1) obtain l "is" where "re = Lit l # is" "l \<noteq> []"
    by (auto simp: mdLinkPattern_def fileLinkPattern_def fileIconPattern_def imgLinkPattern_def
        imgLinkPrefix_def)
  with assms(2) show ?thesis using matchItems_consumes by blast
qed

lemma ReplaceAllString_Cons_match:
  assumes "l \<noteq> []" and "matchItems (Lit l # is) (c # cs) = Some (groups, rest)"
  shows "ReplaceAllString (Lit l # is) (c # cs) repl =
           expand repl groups @ ReplaceAllString (Lit l # is) rest repl"
proof -
  have "length rest < length (c # cs)" using assms by (rule matchItems_consumes)
  then have "length rest \<le> length cs" by simp
  then show ?thesis using assms(2) by (simp del: matchItems.simps)
qed

lemma ReplaceAllString_Cons_no_match:
  "matchItems re (c # cs) = None \<Longrightarrow>
   ReplaceAllString re (c # cs) repl = c # ReplaceAllString re cs repl"
  by (simp del: matchItems.simps)

text \<open>A region where no match starts is copied.\<close>

lemma ReplaceAllString_skip:
  assumes "\<And>t. suffix t a \<Longrightarrow> t \<noteq> [] \<Longrightarrow> matchItems re (t @ rest) = None"
  shows "ReplaceAllString re (a @ rest) repl = a @ ReplaceAllString re rest repl"
  using assms
proof (induction a)
  case Nil
  then show ?case by simp
next
  case (Cons c a)
  have "matchItems re ((c # a) @ rest) = None"
    by (rule Cons.prems) simp_all
  then have "ReplaceAllString re ((c # a) @ rest) repl = c # ReplaceAllString re (a @ rest) repl"
    using ReplaceAllString_Cons_no_match [of re c "a @ rest" repl] by simp
  moreover have "ReplaceAllString re (a @ rest) repl = a @ ReplaceAllString re rest repl"
    by (rule Cons.IH) (simp add: Cons.prems suffix_ConsI)
  ultimately show ?case by simp
qed

lemma matchItems_Lit_None: "\<not> prefix l s \<Longrightarrow> matchItems (Lit l # is) s = None"
  by simp

lemma ReplaceAllString_skip_hd:
  assumes "l \<noteq> []" and "hd l \<notin> set a"
  shows "ReplaceAllString (Lit l # is) (a @ rest) repl = a @ ReplaceAllString (Lit l # is) rest repl"
proof (rule ReplaceAllString_skip)
  fix t assume t: "suffix t a" "t \<noteq> []"
  have "\<not> prefix l (t @ rest)"
  proof
    assume "prefix l (t @ rest)"
    then have "hd l = hd t" using assms(1) t(2) by (cases l; cases t) auto
    moreover have "hd t \<in> set a" using t set_mono_suffix by fastforce
    ultimately show False using assms(2) by simp
  qed
  then show "matchItems (Lit l # is) (t @ rest) = None" by (rule matchItems_Lit_None)
qed

text \<open>A text that lacks a character of the leading literal is left as it is.\<close>

lemma ReplaceAllString_absent:
  assumes "x \<in> set l" and "x \<notin> set s"
  shows "ReplaceAllString (Lit l # is) s repl = s"
proof -
  have "ReplaceAllString (Lit l # is) (s @ []) repl = s @ ReplaceAllString (Lit l # is) [] repl"
  proof (rule ReplaceAllString_skip)
    fix t assume t: "suffix t s" "t \<noteq> []"
    have "\<not> prefix l (t @ [])"
    proof
      assume "prefix l (t @ [])"
      then have "set l \<subseteq> set t" using set_mono_prefix by fastforce
      moreover have "set t \<subseteq> set s" using t(1) by (rule set_mono_suffix)
      ultimately show False using assms by blast
    qed
    then show "matchItems (Lit l # is) (t @ []) = None" by (rule matchItems_Lit_None)
  qed
  then show ?thesis by simp
qed

lemma takeWhile_append_stop:
  "\<not> p x \<Longrightarrow> takeWhile p (u @ x # v) = takeWhile p u"
  by (induction u) auto

text \<open>
  A character that every item rejects ends every match before it: the match is the one found
  in the text before the character.
\<close>

lemma matchItems_stop:
  assumes "\<And>i. i \<in> set is \<Longrightarrow> rejects x i"
  shows "matchItems is (u @ x # v) =
           map_option (\<lambda>(groups, rest). (groups, rest @ x # v)) (matchItems is u)"
  using assms
proof (induction "is" arbitrary: u)
  case Nil
  then show ?case by simp
next
  case (Cons i "is")
  let ?F = "\<lambda>(groups, rest). (groups, rest @ x # v)"
  have ih: "\<And>u. matchItems is (u @ x # v) = map_option ?F (matchItems is u)"
    by (rule Cons.IH) (simp add: Cons.prems)
  have rej: "rejects x i" by (rule Cons.prems) simp
  show ?case
  proof (cases i)
    case (Lit l)
    with rej have x: "x \<notin> set l" by simp
    show ?thesis
    proof (cases "prefix l u")
      case True
      then have "prefix l (u @ x # v)" by (rule prefix_prefix)
      moreover have "drop (length l) (u @ x # v) = drop (length l) u @ x # v"
        using True by (simp add: prefix_length_le)
      ultimately show ?thesis using True Lit ih by simp
    next
      case False
      then have "\<not> prefix l (u @ x # v)" using x by (simp add: prefix_append_stop)
      with False Lit show ?thesis by simp
    qed
  next
    case (Rep n cls)
    with rej have x: "\<not> cls x" by simp
    have g: "greedy n cls (u @ x # v) = greedy n cls u"
      using x by (simp add: greedy_def takeWhile_append_stop)
    have "firstSome (\<lambda>k. matchItems is (drop k (u @ x # v))) (greedy n cls u)
        = firstSome (\<lambda>k. map_option ?F (matchItems is (drop k u))) (greedy n cls u)"
    proof (rule firstSome_cong)
      fix k assume "k \<in> set (greedy n cls u)"
      then have "k \<le> length u" using greedy_bounds by blast
      then have "drop k (u @ x # v) = drop k u @ x # v" by simp
      then show "matchItems is (drop k (u @ x # v)) = map_option ?F (matchItems is (drop k u))"
        using ih by simp
    qed
    then show ?thesis using Rep g by (simp add: firstSome_map_option)
  next
    case (Cap n cls)
    with rej have x: "\<not> cls x" by simp
    let ?h = "\<lambda>s k. case matchItems is (drop k s) of None \<Rightarrow> None
                        | Some (groups, rest) \<Rightarrow> Some (take k s # groups, rest)"
    have g: "greedy n cls (u @ x # v) = greedy n cls u"
      using x by (simp add: greedy_def takeWhile_append_stop)
    have "firstSome (?h (u @ x # v)) (greedy n cls u)
        = firstSome (\<lambda>k. map_option ?F (?h u k)) (greedy n cls u)"
    proof (rule firstSome_cong)
      fix k assume "k \<in> set (greedy n cls u)"
      then have "k \<le> length u" using greedy_bounds by blast
      then have "drop k (u @ x # v) = drop k u @ x # v" "take k (u @ x # v) = take k u"
        by simp_all
      then show "?h (u @ x # v) k = map_option ?F (?h u k)"
        using ih [of "drop k u"] by (simp split: option.splits)
    qed
    then show ?thesis using Cap g by (simp add: firstSome_map_option)
  qed
qed

lemma matchItems_local:
  assumes "l \<noteq> []" and "x \<notin> set (tl l)" and "\<And>i. i \<in> set is \<Longrightarrow> rejects x i"
  shows "matchItems (Lit l # is) (c # cs @ x # v) =
           map_option (\<lambda>(groups, rest). (groups, rest @ x # v)) (matchItems (Lit l # is) (c # cs))"
proof -
  obtain l0 l' where l: "l = l0 # l'" using assms(1) by (cases l) auto
  have x: "x \<notin> set l'" using assms(2) l by simp
  show ?thesis
  proof (cases "prefix l (c # cs)")
    case True
    then have p: "l0 = c" "prefix l' cs" using l by simp_all
    then have "prefix l (c # cs @ x # v)" using l by (simp add: prefix_prefix)
    moreover have "drop (length l) (c # cs @ x # v) = drop (length l') cs @ x # v"
      using l p by (simp add: prefix_length_le)
    moreover have "drop (length l) (c # cs) = drop (length l') cs" using l by simp
    moreover have "matchItems is (drop (length l') cs @ x # v) =
        map_option (\<lambda>(groups, rest). (groups, rest @ x # v)) (matchItems is (drop (length l') cs))"
      by (rule matchItems_stop) (rule assms(3))
    ultimately show ?thesis
      using True by simp
  next
    case False
    have "\<not> prefix l (c # cs @ x # v)"
    proof
      assume "prefix l (c # cs @ x # v)"
      then have "l0 = c" "prefix l' (cs @ x # v)" using l by simp_all
      then have "prefix l (c # cs)" using l x by (simp add: prefix_append_stop)
      with False show False by simp
    qed
    with False show ?thesis by simp
  qed
qed

text \<open>Such a character cuts the scan in two, as for \<open>ReplaceAll\<close>.\<close>

lemma ReplaceAllString_sync:
  assumes "l \<noteq> []" and "x \<notin> set (tl l)" and "\<And>i. i \<in> set is \<Longrightarrow> rejects x i"
  shows "ReplaceAllString (Lit l # is) (a @ x # v) repl =
           ReplaceAllString (Lit l # is) a repl @ ReplaceAllString (Lit l # is) (x # v) repl"
proof (induction "length a" arbitrary: a rule: less_induct)
  case less
  let ?re = "Lit l # is"
  show ?case
  proof (cases a)
    case Nil
    then show ?thesis by simp
  next
    case (Cons c cs)
    have loc: "matchItems ?re (c # cs @ x # v) =
        map_option (\<lambda>(groups, rest). (groups, rest @ x # v)) (matchItems ?re (c # cs))"
      using assms by (rule matchItems_local)
    show ?thesis
    proof (cases "matchItems ?re (c # cs)")
      case None
      with loc have n: "matchItems ?re (c # cs @ x # v) = None" by simp
      have "ReplaceAllString ?re ((c # cs) @ x # v) repl = c # ReplaceAllString ?re (cs @ x # v) repl"
        using ReplaceAllString_Cons_no_match [OF n] by simp
      also have "\<dots> = c # ReplaceAllString ?re cs repl @ ReplaceAllString ?re (x # v) repl"
        using less [of cs] Cons by simp
      also have "\<dots> = ReplaceAllString ?re (c # cs) repl @ ReplaceAllString ?re (x # v) repl"
        using ReplaceAllString_Cons_no_match [OF None] by simp
      finally show ?thesis using Cons by simp
    next
      case (Some m)
      obtain groups rest where m: "m = (groups, rest)" by (cases m)
      with Some have s: "matchItems ?re (c # cs) = Some (groups, rest)" by simp
      with loc have s': "matchItems ?re (c # cs @ x # v) = Some (groups, rest @ x # v)" by simp
      have len: "length rest < length a"
        using matchItems_consumes [OF assms(1) s] Cons by simp
      have "ReplaceAllString ?re ((c # cs) @ x # v) repl
          = expand repl groups @ ReplaceAllString ?re (rest @ x # v) repl"
        using ReplaceAllString_Cons_match [OF assms(1), of "is" c "cs @ x # v"] s' by simp
      also have "\<dots> = expand repl groups @ ReplaceAllString ?re rest repl
          @ ReplaceAllString ?re (x # v) repl"
        using less [OF len] by simp
      also have "\<dots> = ReplaceAllString ?re (c # cs) repl @ ReplaceAllString ?re (x # v) repl"
        using ReplaceAllString_Cons_match [OF assms(1) s] by simp
      finally show ?thesis using Cons by simp
    qed
  qed
qed

subsection \<open>Scanning across a block of text\<close>

text \<open>
  A block in which the first character of the pattern occurs once, followed by a character
  that is not the second one of the pattern, is copied.
\<close>

lemma ReplaceAllString_over_block:
  assumes "l = l0 # l1 # l'" and "l0 \<notin> set A1" and "y \<noteq> l1" and "l0 \<notin> set (y # A2)"
  shows "ReplaceAllString (Lit l # is) (A1 @ l0 # y # A2 @ v) repl
           = A1 @ l0 # y # A2 @ ReplaceAllString (Lit l # is) v repl"
proof -
  have l: "l \<noteq> []" "hd l = l0" using assms(1) by simp_all
  have "ReplaceAllString (Lit l # is) (A1 @ (l0 # y # A2 @ v)) repl
      = A1 @ ReplaceAllString (Lit l # is) (l0 # y # A2 @ v) repl"
    using l assms(2) by (intro ReplaceAllString_skip_hd) simp_all
  moreover have "ReplaceAllString (Lit l # is) (l0 # y # A2 @ v) repl
      = l0 # ReplaceAllString (Lit l # is) (y # A2 @ v) repl"
    using assms(1,3) by (intro ReplaceAllString_Cons_no_match) simp
  moreover have "ReplaceAllString (Lit l # is) ((y # A2) @ v) repl
      = (y # A2) @ ReplaceAllString (Lit l # is) v repl"
    using l assms(4) by (intro ReplaceAllString_skip_hd) simp_all
  ultimately show ?thesis by simp
qed

lemma ReplaceAll_over_block:
  assumes "old = o0 # o1 # os" and "o0 \<notin> set A1" and "y \<noteq> o1" and "o0 \<notin> set (y # A2)"
  shows "ReplaceAll (A1 @ o0 # y # A2 @ v) old new = A1 @ o0 # y # A2 @ ReplaceAll v old new"
proof -
  have l: "old \<noteq> []" "hd old = o0" using assms(1) by simp_all
  have "ReplaceAll (A1 @ (o0 # y # A2 @ v)) old new = A1 @ ReplaceAll (o0 # y # A2 @ v) old new"
    using l assms(2) by (intro ReplaceAll_skip) simp_all
  moreover have "ReplaceAll (o0 # y # A2 @ v) old new = o0 # ReplaceAll (y # A2 @ v) old new"
    using assms(1,3) by (intro ReplaceAll_Cons_no_match) simp
  moreover have "ReplaceAll ((y # A2) @ v) old new = (y # A2) @ ReplaceAll v old new"
    using l assms(4) by (intro ReplaceAll_skip) simp_all
  ultimately show ?thesis by simp
qed

subsection \<open>The patterns at an occurrence\<close>

lemma fixLinks_stages: "fixLinks input = literalRules (patternRules input)"
  by (simp add: fixLinks_def literalRules_def patternRules_def beforeImageRule_def)

lemma dropWhile_dropWhile:
  "(\<And>c. p c \<Longrightarrow> q c) \<Longrightarrow> dropWhile q (dropWhile p s) = dropWhile q s"
  by (induction s) auto

lemma imgIdChar_notParen: "imgIdChar c \<Longrightarrow> notParen c"
  by (auto simp: imgIdChar_def digit_def lower_def upper_def notParen_def)

lemma matchItems_trailing_Rep: "matchItems [Rep 0 cls] t = Some ([], dropWhile cls t)"
proof -
  have "firstSome (\<lambda>k. matchItems [] (drop k t)) (greedy 0 cls t)
      = Some ([], drop (length (takeWhile cls t)) t)"
    by (rule firstSome_greedy_longest) simp_all
  then show ?thesis by (simp add: dropWhile_eq_drop)
qed

lemma imgLinkPattern_match:
  assumes "takeWhile imgIdChar s \<noteq> []"
  shows "matchItems imgLinkPattern (imgLinkPrefix @ s)
           = Some ([takeWhile imgIdChar s], dropWhile notParen s)"
proof -
  let ?K = "length (takeWhile imgIdChar s)"
  let ?h = "\<lambda>k. case matchItems [Rep 0 notParen] (drop k s) of
                   None \<Rightarrow> None
                 | Some (groups, rest) \<Rightarrow> Some (take k s # groups, rest)"
  have "?h ?K = Some ([take ?K s], dropWhile notParen (drop ?K s))"
    unfolding matchItems_trailing_Rep by simp
  moreover have "take ?K s = takeWhile imgIdChar s"
    by (rule takeWhile_eq_take [symmetric])
  moreover have "dropWhile notParen (drop ?K s) = dropWhile notParen s"
    using dropWhile_dropWhile [of imgIdChar notParen s] imgIdChar_notParen
    by (simp add: dropWhile_eq_drop)
  ultimately have h: "?h ?K = Some ([takeWhile imgIdChar s], dropWhile notParen s)"
    by simp
  have "1 \<le> ?K" using assms by (simp add: Suc_leI)
  then have "firstSome ?h (greedy 1 imgIdChar s)
      = Some ([takeWhile imgIdChar s], dropWhile notParen s)"
    using h by (rule firstSome_greedy_longest)
  then show ?thesis by (simp add: imgLinkPattern_def)
qed

lemma mdLinkPattern_match:
  assumes "ds \<noteq> []" and "\<forall>c\<in>set ds. digit c"
  shows "matchItems mdLinkPattern (''#{'' @ ds @ ''}'' @ b) = Some ([ds], b)"
proof -
  let ?s = "ds @ CHR ''}'' # b"
  let ?h = "\<lambda>k. case matchItems [Lit ''}''] (drop k ?s) of
                   None \<Rightarrow> None
                 | Some (groups, rest) \<Rightarrow> Some (take k ?s # groups, rest)"
  have "\<not> digit (CHR ''}'')" by (simp add: digit_def)
  then have "takeWhile digit ?s = takeWhile digit ds"
    using takeWhile_append_stop [of digit "CHR ''}''" ds b] by simp
  also have "\<dots> = ds" using assms(2) by (simp add: takeWhile_eq_all_conv)
  finally have tw: "takeWhile digit ?s = ds" .
  have "?h (length (takeWhile digit ?s)) = Some ([ds], b)"
    unfolding tw by simp
  moreover have "1 \<le> length (takeWhile digit ?s)"
    unfolding tw using assms(1) by (simp add: Suc_leI)
  ultimately have "firstSome ?h (greedy 1 digit ?s) = Some ([ds], b)"
    by (rule firstSome_greedy_longest [rotated])
  then show ?thesis by (simp add: mdLinkPattern_def)
qed

lemma prefix_no_border:
  assumes "l \<noteq> []" and "hd l \<notin> set (tl l)" and "t \<noteq> []" and "prefix l (t @ l @ s)"
  shows "prefix l t"
proof -
  from assms(4) have "prefix l t \<or> (\<exists>us. l = t @ us \<and> prefix us (l @ s))"
    by (simp add: prefix_append)
  then show ?thesis
  proof
    assume "prefix l t"
    then show ?thesis .
  next
    assume "\<exists>us. l = t @ us \<and> prefix us (l @ s)"
    then obtain us where us: "l = t @ us" "prefix us (l @ s)" by blast
    show ?thesis
    proof (cases us)
      case Nil
      with us show ?thesis by simp
    next
      case (Cons y ys)
      with us(2) assms(1) have "y = hd l" by (cases l) auto
      moreover have "y \<in> set (tl l)" using us(1) Cons assms(3) by (cases t) auto
      ultimately show ?thesis using assms(2) by simp
    qed
  qed
qed

lemma imgLinkPrefix_facts:
  "imgLinkPrefix \<noteq> []"
  "hd imgLinkPrefix \<notin> set (tl imgLinkPrefix)"
  "CHR 0xF0 \<notin> set imgLinkPrefix"
  "CHR 0x29 \<notin> set imgLinkPrefix"
  by (simp_all add: imgLinkPrefix_def)

text \<open>Where the text before holds no URL prefix, the image rule finds no match in it.\<close>

lemma imgLinkRule_skip:
  assumes "\<not> sublist imgLinkPrefix a"
    and "\<And>t. t \<noteq> [] \<Longrightarrow> prefix imgLinkPrefix (t @ rest) \<Longrightarrow> prefix imgLinkPrefix t"
  shows "imgLinkRule (a @ rest) = a @ imgLinkRule rest"
  unfolding imgLinkRule_def
proof (rule ReplaceAllString_skip)
  fix t assume t: "suffix t a" "t \<noteq> []"
  have "\<not> prefix imgLinkPrefix (t @ rest)"
  proof
    assume "prefix imgLinkPrefix (t @ rest)"
    with t(2) have "prefix imgLinkPrefix t" by (rule assms(2))
    with t(1) have "sublist imgLinkPrefix a" unfolding sublist_altdef' by blast
    with assms(1) show False by simp
  qed
  then show "matchItems imgLinkPattern (t @ rest) = None"
    unfolding imgLinkPattern_def by (rule matchItems_Lit_None)
qed

subsection \<open>Claim C6: the image rule\<close>

text \<open>
  Claim C6, as stated, fails: the pattern ends in \<open>[^)]*\<close>, which takes every character up
  to the next closing parenthesis, query string or not. An image URL in running text takes
  the rest of the text with it.
\<close>

theorem imgLink_consumes_following_text:
  "fixLinks ''see https://image.docbase.io/uploads/a.png for the logo'' = ''see a.png'' \<and>
   fixLinks ''see https://image.docbase.io/uploads/a.png for the logo'' \<noteq> ''see a.png for the logo''"
  by code_simp

text \<open>
  Claim C6, amended: where the text before it holds no image URL prefix, an occurrence of
  \<open>https://image.docbase.io/uploads/\<close> followed by at least one character of
  \<open>[0-9a-zA-Z-.]\<close> is replaced by the longest run of such characters after the prefix (the
  id with its extension); the URL prefix is discarded, and so is everything between the id
  and the next closing parenthesis (or the end of the text, when there is none), whatever it
  is. The rule then goes on in the same way from that parenthesis: a closing parenthesis
  separates what the rule does before it from what it does after it.
\<close>

theorem imgLink_rewrite:
  assumes "\<not> sublist imgLinkPrefix a" and "takeWhile imgIdChar s \<noteq> []"
  shows "imgLinkRule (a @ imgLinkPrefix @ s)
           = a @ takeWhile imgIdChar s @ imgLinkRule (dropWhile notParen s) \<and>
         imgLinkRule (b @ CHR 0x29 # v) = imgLinkRule b @ CHR 0x29 # imgLinkRule v"
proof
  have "imgLinkRule (a @ imgLinkPrefix @ s) = a @ imgLinkRule (imgLinkPrefix @ s)"
    using assms(1)
  proof (rule imgLinkRule_skip)
    fix t :: string assume "t \<noteq> []" "prefix imgLinkPrefix (t @ imgLinkPrefix @ s)"
    then show "prefix imgLinkPrefix t"
      using prefix_no_border [OF imgLinkPrefix_facts(1,2)] by blast
  qed
  moreover have "imgLinkRule (imgLinkPrefix @ s)
      = takeWhile imgIdChar s @ imgLinkRule (dropWhile notParen s)"
  proof -
    obtain c cs where c: "imgLinkPrefix @ s = c # cs"
      using imgLinkPrefix_facts(1) by (cases "imgLinkPrefix @ s") auto
    have "matchItems (Lit imgLinkPrefix # [Cap 1 imgIdChar, Rep 0 notParen]) (c # cs)
        = Some ([takeWhile imgIdChar s], dropWhile notParen s)"
      using imgLinkPattern_match [OF assms(2)] c by (simp only: imgLinkPattern_def)
    from ReplaceAllString_Cons_match [OF imgLinkPrefix_facts(1) this, of "[Ref 1]"]
    show ?thesis by (simp add: imgLinkRule_def imgLinkPattern_def c expand_def)
  qed
  ultimately show "imgLinkRule (a @ imgLinkPrefix @ s)
      = a @ takeWhile imgIdChar s @ imgLinkRule (dropWhile notParen s)"
    by simp
next
  have rej: "\<And>i. i \<in> set [Cap 1 imgIdChar, Rep 0 notParen] \<Longrightarrow> rejects (CHR 0x29) i"
    by (auto simp: imgIdChar_def digit_def lower_def upper_def notParen_def)
  have "CHR 0x29 \<notin> set (tl imgLinkPrefix)" by (simp add: imgLinkPrefix_def)
  with imgLinkPrefix_facts(1)
  have "imgLinkRule (b @ CHR 0x29 # v) = imgLinkRule b @ imgLinkRule (CHR 0x29 # v)"
    unfolding imgLinkRule_def imgLinkPattern_def using rej by (rule ReplaceAllString_sync)
  moreover have "imgLinkRule (CHR 0x29 # v) = CHR 0x29 # imgLinkRule v"
    unfolding imgLinkRule_def
    by (rule ReplaceAllString_Cons_no_match) (simp add: imgLinkPattern_def imgLinkPrefix_def)
  ultimately show "imgLinkRule (b @ CHR 0x29 # v) = imgLinkRule b @ CHR 0x29 # imgLinkRule v"
    by simp
qed

theorem imgLink_rewrite_witness:
  "imgLinkRule (''![logo]('' @ imgLinkPrefix @ ''a-b.png?size=1 =200x) and [text](x.md)'')
     = ''![logo]('' @ ''a-b.png'' @ imgLinkRule '') and [text](x.md)'' \<and>
   imgLinkRule (''(x'' @ CHR 0x29 # ''y'') = imgLinkRule ''(x'' @ CHR 0x29 # imgLinkRule ''y''"
proof -
  have 1: "\<not> sublist imgLinkPrefix ''![logo](''"
    by (simp add: imgLinkPrefix_def sublist_Cons_right)
  have 2: "takeWhile imgIdChar ''a-b.png?size=1 =200x) and [text](x.md)'' \<noteq> []"
    by (simp add: imgIdChar_def digit_def lower_def upper_def)
  from imgLink_rewrite [OF 1 2, of "''(x''" "''y''"] show ?thesis
    by (simp add: imgIdChar_def digit_def lower_def upper_def notParen_def)
qed

subsection \<open>Facts about the Name Index\<close>

lemma LastIndex_found:
  assumes "c \<notin> set b"
  shows "LastIndex (a @ c # b) [c] = int (length a)"
proof -
  let ?s = "a @ c # b"
  let ?P = "\<lambda>i. take (length [c]) (drop i ?s) = [c]"
  have split: "[0..<Suc (length ?s)] = [0..<length a] @ length a # [Suc (length a)..<Suc (length ?s)]"
  proof -
    have len: "Suc (length ?s) = length a + (length b + 2)" by simp
    have "[0..<length a + (length b + 2)] = [0..<length a] @ [length a..<length a + (length b + 2)]"
      by (rule upt_add_eq_append) simp
    moreover have "[length a..<length a + (length b + 2)] =
        length a # [Suc (length a)..<length a + (length b + 2)]"
      by (rule upt_conv_Cons) simp
    ultimately show ?thesis unfolding len by simp
  qed
  have none: "filter ?P [Suc (length a)..<Suc (length ?s)] = []"
  proof -
    have "\<not> ?P i" if "i \<in> set [Suc (length a)..<Suc (length ?s)]" for i
    proof -
      from that have i: "Suc (length a) \<le> i" "i \<le> length ?s" by auto
      define j where "j = i - Suc (length a)"
      have j: "i = Suc (length a) + j" using i by (simp add: j_def)
      have "drop i ?s = drop j b" unfolding j by (simp add: drop_Cons')
      moreover have "take 1 (drop j b) \<noteq> [c]"
      proof
        assume "take 1 (drop j b) = [c]"
        then have "c \<in> set (take 1 (drop j b))" by simp
        then have "c \<in> set b" by (blast dest: in_set_takeD in_set_dropD)
        with assms show False by simp
      qed
      ultimately show ?thesis by simp
    qed
    then show ?thesis by (simp add: filter_empty_conv)
  qed
  have here: "?P (length a)" by simp
  have "filter ?P (rev [0..<Suc (length ?s)]) = length a # filter ?P (rev [0..<length a])"
    unfolding split using none here by (simp add: rev_filter [symmetric] del: upt_Suc)
  then show ?thesis unfolding LastIndex_def by simp
qed

lemma LastIndex_absent:
  assumes "c \<notin> set s"
  shows "LastIndex s [c] = - 1"
proof -
  have "\<not> take (length [c]) (drop i s) = [c]" for i
  proof
    assume "take (length [c]) (drop i s) = [c]"
    then have "c \<in> set (take (length [c]) (drop i s))" by simp
    then have "c \<in> set s" by (blast dest: in_set_takeD in_set_dropD)
    with assms show False by simp
  qed
  then have "filter (\<lambda>i. take (length [c]) (drop i s) = [c]) (rev [0..<Suc (length s)]) = []"
    by (simp add: filter_empty_conv del: upt_Suc)
  then show ?thesis unfolding LastIndex_def by simp
qed

lemma linkKey_separator:
  "CHR ''_'' \<notin> set rest \<Longrightarrow> linkKey (ident @ ''_'' @ rest) = rest"
proof -
  assume "CHR ''_'' \<notin> set rest"
  then have "LastIndex (ident @ ''_'' @ rest) ''_'' = int (length ident)"
    using LastIndex_found [of "CHR ''_''" rest ident] by simp
  moreover have "nat (int (length ident) + 1) = Suc (length ident)" by simp
  ultimately show ?thesis by (simp add: linkKey_def)
qed

lemma linkKey_no_separator:
  "CHR ''_'' \<notin> set name \<Longrightarrow> linkKey name = name"
  using LastIndex_absent [of "CHR ''_''" name] by (simp add: linkKey_def)

lemma linkKey_suffix: "suffix (linkKey name) name"
  by (simp add: linkKey_def suffix_drop)

lemma scanDir_other:
  "\<forall>e\<in>set es. \<not> IsDir e \<longrightarrow> linkKey (Name e) \<noteq> k \<Longrightarrow> scanDir es m k = m k"
  by (induction es arbitrary: m) auto

lemma scanDir_append: "scanDir (xs @ ys) m = scanDir ys (scanDir xs m)"
  by (induction xs arbitrary: m) auto

lemma scanDir_last_wins:
  assumes "\<not> IsDir e"
    and "\<forall>e'\<in>set post. \<not> IsDir e' \<longrightarrow> linkKey (Name e') \<noteq> linkKey (Name e)"
  shows "scanDir (pre @ e # post) m (linkKey (Name e)) = Some (Name e)"
  using assms by (simp add: scanDir_append scanDir_other)

lemma scanDir_origin:
  "scanDir es m k = Some v \<Longrightarrow>
     m k = Some v \<or> (\<exists>e\<in>set es. \<not> IsDir e \<and> Name e = v \<and> linkKey (Name e) = k)"
proof (induction es arbitrary: m)
  case Nil
  then show ?case by simp
next
  case (Cons e es)
  from Cons.IH [OF Cons.prems [simplified]] show ?case
    by (auto split: if_splits)
qed

lemma linkKey_examples:
  "linkKey ''1_a.png'' = ''a.png''"
  "linkKey ''2_a.png'' = ''a.png''"
  "linkKey ''sub_dir'' = ''dir''"
  "linkKey ''12_my_photo.png'' = ''photo.png''"
  "linkKey ''README'' = ''README''"
  using linkKey_separator [of "''a.png''" "''1''"] linkKey_separator [of "''a.png''" "''2''"]
    linkKey_separator [of "''dir''" "''sub''"] linkKey_separator [of "''photo.png''" "''12_my''"]
    linkKey_no_separator [of "''README''"]
  by simp_all

subsection \<open>Claims about the Name Index\<close>

text \<open>
  Claim C1, as stated, fails: two files of one directory can share the suffix after the last
  underscore. \<open>1_a.png\<close> is a non-directory entry of the form \<open><id>_<rest>\<close>, but after the
  scan the key \<open>a.png\<close> leads to \<open>2_a.png\<close>, which was scanned later.
\<close>

theorem nameIndex_collision_overwrites:
  "buildIndex [\<lparr>Name = ''1_a.png'', IsDir = False\<rparr>, \<lparr>Name = ''2_a.png'', IsDir = False\<rparr>] ''a.png''
     = Some ''2_a.png'' \<and>
   buildIndex [\<lparr>Name = ''1_a.png'', IsDir = False\<rparr>, \<lparr>Name = ''2_a.png'', IsDir = False\<rparr>] ''a.png''
     \<noteq> Some ''1_a.png''"
  by (simp add: buildIndex_def linkKey_examples)

text \<open>
  Claim C1, amended: for every non-directory entry that no later-scanned non-directory entry
  of the same directory shares its key with, the index maps the suffix after the last
  underscore to the full filename \<open><id>_<rest>\<close>, and maps a filename without underscore to
  itself.
\<close>

theorem nameIndex_maps_key_to_filename:
  assumes "\<not> IsDir entry"
    and "\<forall>later\<in>set post. \<not> IsDir later \<longrightarrow> linkKey (Name later) \<noteq> linkKey (Name entry)"
  shows "(Name entry = ident @ ''_'' @ rest \<and> CHR ''_'' \<notin> set rest \<longrightarrow>
            buildIndex (pre @ entry # post) rest = Some (ident @ ''_'' @ rest)) \<and>
         (CHR ''_'' \<notin> set (Name entry) \<longrightarrow>
            buildIndex (pre @ entry # post) (Name entry) = Some (Name entry))"
proof (intro conjI impI)
  assume form: "Name entry = ident @ ''_'' @ rest \<and> CHR ''_'' \<notin> set rest"
  then have "linkKey (Name entry) = rest"
    using linkKey_separator [of rest ident] by simp
  with scanDir_last_wins [OF assms, of pre Map.empty] form
  show "buildIndex (pre @ entry # post) rest = Some (ident @ ''_'' @ rest)"
    by (simp add: buildIndex_def)
next
  assume "CHR ''_'' \<notin> set (Name entry)"
  then have "linkKey (Name entry) = Name entry"
    by (rule linkKey_no_separator)
  with scanDir_last_wins [OF assms, of pre Map.empty]
  show "buildIndex (pre @ entry # post) (Name entry) = Some (Name entry)"
    by (simp add: buildIndex_def)
qed

theorem nameIndex_maps_key_to_filename_witness:
  "buildIndex [\<lparr>Name = ''sub_dir'', IsDir = True\<rparr>, \<lparr>Name = ''1_a.png'', IsDir = False\<rparr>,
               \<lparr>Name = ''2_a.png'', IsDir = False\<rparr>, \<lparr>Name = ''README'', IsDir = False\<rparr>] ''a.png''
     = Some ''2_a.png'' \<and>
   buildIndex [\<lparr>Name = ''sub_dir'', IsDir = True\<rparr>, \<lparr>Name = ''1_a.png'', IsDir = False\<rparr>,
               \<lparr>Name = ''2_a.png'', IsDir = False\<rparr>, \<lparr>Name = ''README'', IsDir = False\<rparr>] ''README''
     = Some ''README''"
  using
    nameIndex_maps_key_to_filename [of "\<lparr>Name = ''2_a.png'', IsDir = False\<rparr>"
      "[\<lparr>Name = ''README'', IsDir = False\<rparr>]" "''2''" "''a.png''"
      "[\<lparr>Name = ''sub_dir'', IsDir = True\<rparr>, \<lparr>Name = ''1_a.png'', IsDir = False\<rparr>]"]
    nameIndex_maps_key_to_filename [of "\<lparr>Name = ''README'', IsDir = False\<rparr>" "[]" "[]" "[]"
      "[\<lparr>Name = ''sub_dir'', IsDir = True\<rparr>, \<lparr>Name = ''1_a.png'', IsDir = False\<rparr>,
        \<lparr>Name = ''2_a.png'', IsDir = False\<rparr>]"]
  by (simp add: linkKey_examples)

text \<open>
  Claim C10: in the index built at startup from a directory listing, every key is a suffix of
  its value, and every value is the filename of a non-directory entry of that listing (whose
  key it is stored under). The handlers below receive the two indices as arguments and return
  a response only: like the source, which assigns to the two maps nowhere but in the scan
  loops of \<open>main\<close>, they cannot change an index.
\<close>

theorem nameIndex_invariant:
  assumes "buildIndex entries k = Some v"
  shows "suffix k v \<and> (\<exists>entry\<in>set entries. \<not> IsDir entry \<and> Name entry = v \<and> linkKey v = k)"
proof -
  from scanDir_origin [OF assms [unfolded buildIndex_def]]
  obtain entry where e: "entry \<in> set entries" "\<not> IsDir entry" "Name entry = v" "linkKey (Name entry) = k"
    by auto
  from e(3,4) have "suffix k v" using linkKey_suffix [of v] by simp
  with e show ?thesis by auto
qed

theorem nameIndex_invariant_witness:
  "buildIndex [\<lparr>Name = ''sub_dir'', IsDir = True\<rparr>, \<lparr>Name = ''12_my_photo.png'', IsDir = False\<rparr>]
     ''photo.png'' = Some ''12_my_photo.png'' \<and>
   suffix ''photo.png'' ''12_my_photo.png'' \<and>
   (\<exists>entry\<in>set [\<lparr>Name = ''sub_dir'', IsDir = True\<rparr>, \<lparr>Name = ''12_my_photo.png'', IsDir = False\<rparr>].
      \<not> IsDir entry \<and> Name entry = ''12_my_photo.png'' \<and> linkKey ''12_my_photo.png'' = ''photo.png'')"
proof -
  have h: "buildIndex [\<lparr>Name = ''sub_dir'', IsDir = True\<rparr>, \<lparr>Name = ''12_my_photo.png'', IsDir = False\<rparr>]
     ''photo.png'' = Some ''12_my_photo.png''"
    by (simp add: buildIndex_def linkKey_examples)
  from nameIndex_invariant [OF h] h show ?thesis by simp
qed

subsection \<open>Claims about the handlers\<close>

text \<open>
  Claim C3, as stated, fails for the stylesheet: \<open>/doc.css\<close> has a handler of its own
  (line 126) that does not look at the credential. With the credential \<open>admin\<close> /
  \<open>secret\<close> configured, a request for \<open>/doc.css\<close> without any credential is answered
  with status 200 and no challenge.
\<close>

theorem stylesheet_served_without_credential:
  "basicUser fixtureServer \<noteq> [] \<and>
   Status (serve fixtureServer fixtureEnv \<lparr>Method = ''GET'', Path = ''/doc.css'', BasicAuth = None\<rparr>) = 200 \<and>
   Header (serve fixtureServer fixtureEnv \<lparr>Method = ''GET'', Path = ''/doc.css'', BasicAuth = None\<rparr>)
     ''WWW-Authenticate'' = None"
  by (simp add: serve_def fixtureServer_def fixtureEnv_def write_response_def)

text \<open>
  Claim C3, amended: when a shared credential is configured (the user name is not empty),
  every \<open>GET\<close> request that \<open>catchAll\<close> handles, with a missing or mismatched
  credential, receives status 401 with the \<open>WWW-Authenticate\<close> challenge; \<open>catchAll\<close>
  handles every path but \<open>/doc.css\<close> and \<open>/favicon.ico\<close>.
\<close>

theorem catchAll_requires_credential:
  assumes "basicUser srv \<noteq> []" and "Method r = ''GET''"
    and "BasicAuth r = None \<or>
         (\<exists>ident secret. BasicAuth r = Some (ident, secret) \<and>
            (ident \<noteq> basicUser srv \<or> secret \<noteq> basicPassword srv))"
  shows "Status (catchAll srv os r) = 401 \<and>
         Header (catchAll srv os r) ''WWW-Authenticate'' = Some challenge \<and>
         (Path r \<noteq> ''/favicon.ico'' \<and> Path r \<noteq> ''/doc.css'' \<longrightarrow> serve srv os r = catchAll srv os r)"
  using assms by (auto simp: catchAll_def httpError_def serve_def)

theorem catchAll_requires_credential_witness:
  "Status (catchAll fixtureServer fixtureEnv
      \<lparr>Method = ''GET'', Path = ''/1.md'', BasicAuth = Some (''admin'', ''guess'')\<rparr>) = 401 \<and>
   Header (catchAll fixtureServer fixtureEnv
      \<lparr>Method = ''GET'', Path = ''/1.md'', BasicAuth = Some (''admin'', ''guess'')\<rparr>)
      ''WWW-Authenticate'' = Some challenge \<and>
   serve fixtureServer fixtureEnv
      \<lparr>Method = ''GET'', Path = ''/1.md'', BasicAuth = Some (''admin'', ''guess'')\<rparr> =
   catchAll fixtureServer fixtureEnv
      \<lparr>Method = ''GET'', Path = ''/1.md'', BasicAuth = Some (''admin'', ''guess'')\<rparr>"
  using catchAll_requires_credential [of fixtureServer
      "\<lparr>Method = ''GET'', Path = ''/1.md'', BasicAuth = Some (''admin'', ''guess'')\<rparr>" fixtureEnv]
  by (simp add: fixtureServer_def)

text \<open>
  What \<open>headAndContent\<close> returns as its error once the file has opened, and the read
  failures that the handlers do report.
\<close>

lemma headAndContent_error:
  "Open os p = Inr f \<Longrightarrow> snd (snd (headAndContent os p)) = CloseErr f"
  by (simp add: headAndContent_def deferredClose_def Let_def)

lemma handleMarkdown_open_error:
  "Stat os (Join os (mdDir srv) n) = None \<Longrightarrow> Open os (Join os (mdDir srv) n) = Inl e \<Longrightarrow>
   Status (handleMarkdown srv os n) = 500"
  by (simp add: handleMarkdown_def headAndContent_def httpError_def)

lemma handleImage_read_error:
  "imgLinkToNameMap srv n = Some a \<Longrightarrow> ReadFile os (Join os (imgDir srv) a) = Inl e \<Longrightarrow>
   Status (handleImage srv os n) = 500"
  by (simp add: handleImage_def httpError_def)

lemma handleFile_read_error:
  "fileLinkToNameMap srv n = Some a \<Longrightarrow> ReadFile os (Join os (fileDir srv) a) = Inl e \<Longrightarrow>
   Status (handleFile srv os n) = 500"
  by (simp add: handleFile_def httpError_def)

text \<open>
  Claim C4 holds for the image and attachment handlers and for a markdown file that fails to
  open (the three lemmas above), but not for a scan error of \<open>headAndContent\<close>: the
  deferred function overwrites \<open>err = scanner.Err()\<close> with the result of the close. Here
  the file exists and opens, the scan stops with an error after two lines, the close
  succeeds, and the handler renders the page with status 200.
\<close>

theorem handleMarkdown_scan_error_unreported:
  "Stat fixtureEnv (Join fixtureEnv (mdDir fixtureServer) ''1.md'') = None \<and>
   Open fixtureEnv (Join fixtureEnv (mdDir fixtureServer) ''1.md'') =
     Inr \<lparr>Tokens = [''Title'', ''first line''], ScanErr = Some tooLong, CloseErr = None\<rparr> \<and>
   Status (handleMarkdown fixtureServer fixtureEnv ''1.md'') = 200"
  by (simp add: handleMarkdown_def headAndContent_def deferredClose_def fixtureEnv_def fixtureServer_def)

end
